theory Spec2Isabelle
  imports Main "HOL-Library.Word"
begin

unbundle bit_operations_syntax

section \<open>Go values\<close>

text \<open>
  Go's \<^verbatim>\<open>int\<close> is a signed machine integer; on the 64-bit platforms the node runs on it
  has 64 bits and \<^verbatim>\<open>+\<close> wraps around. It is a \<open>64 word\<close> here, read through \<open>sint\<close>.
  A Go \<^verbatim>\<open>string\<close> is a sequence of bytes, as \<open>string\<close> is. A run-time panic is a value.
  Go's \<^verbatim>\<open>error\<close> result is \<open>string option\<close>, with \<open>None\<close> for \<^verbatim>\<open>nil\<close>.
\<close>

type_synonym go_int = "64 word"

type_synonym go_error = "string option"

datatype panic = NegativeRepeatCount | IndexOutOfRange

definition digitchar :: "nat \<Rightarrow> char" where
  "digitchar n = ''0123456789abcdef'' ! n"

fun decimal :: "nat \<Rightarrow> string" where
  "decimal n = (if n < 10 then [digitchar n] else decimal (n div 10) @ [digitchar (n mod 10)])"

fun lowerhex :: "nat \<Rightarrow> string" where
  "lowerhex n = (if n < 16 then [digitchar n] else lowerhex (n div 16) @ [digitchar (n mod 16)])"

declare decimal.simps [simp del] lowerhex.simps [simp del]

text \<open>\<^verbatim>\<open>strconv.Itoa(i)\<close>: the decimal rendering, with a sign for negative numbers.\<close>

definition Itoa :: "go_int \<Rightarrow> string" where
  "Itoa i = (if sint i < 0 then CHR ''-'' # decimal (nat (- sint i)) else decimal (nat (sint i)))"

text \<open>\<^verbatim>\<open>fmt.Sprintf("%x", i)\<close> for an \<^verbatim>\<open>int\<close>: sign and magnitude in lowercase hex.\<close>

definition Sprintf_x :: "go_int \<Rightarrow> string" where
  "Sprintf_x i = (if sint i < 0 then CHR ''-'' # lowerhex (nat (- sint i)) else lowerhex (nat (sint i)))"

text \<open>\<^verbatim>\<open>strings.Repeat\<close> panics on a negative count; \<^verbatim>\<open>strings.HasPrefix\<close>.\<close>

definition Repeat :: "string \<Rightarrow> go_int \<Rightarrow> panic + string" where
  "Repeat s count =
     (if sint count < 0 then Inl NegativeRepeatCount
      else Inr (concat (replicate (nat (sint count)) s)))"

definition HasPrefix :: "string \<Rightarrow> string \<Rightarrow> bool" where
  "HasPrefix s pre = (length pre \<le> length s \<and> take (length pre) s = pre)"

section \<open>SHA-256 (\<^verbatim>\<open>crypto/sha256\<close>) and \<^verbatim>\<open>encoding/hex\<close>\<close>

text \<open>
  The digest of FIPS 180-4. A \<^verbatim>\<open>uint32\<close> is a natural number below \<open>2^32\<close>, with the
  wrap-around of the addition written out; a byte is a natural number below \<open>256\<close>.
\<close>

type_synonym uint32 = nat

type_synonym byte = nat

definition K256 :: "uint32 list" where
  "K256 =
    [1116352408, 1899447441, 3049323471, 3921009573, 961987163, 1508970993,
     2453635748, 2870763221, 3624381080, 310598401, 607225278, 1426881987,
     1925078388, 2162078206, 2614888103, 3248222580, 3835390401, 4022224774,
     264347078, 604807628, 770255983, 1249150122, 1555081692, 1996064986,
     2554220882, 2821834349, 2952996808, 3210313671, 3336571891, 3584528711,
     113926993, 338241895, 666307205, 773529912, 1294757372, 1396182291,
     1695183700, 1986661051, 2177026350, 2456956037, 2730485921, 2820302411,
     3259730800, 3345764771, 3516065817, 3600352804, 4094571909, 275423344,
     430227734, 506948616, 659060556, 883997877, 958139571, 1322822218,
     1537002063, 1747873779, 1955562222, 2024104815, 2227730452, 2361852424,
     2428436474, 2756734187, 3204031479, 3329325298]"

definition init256 :: "uint32 list" where
  "init256 =
    [1779033703, 3144134277, 1013904242, 2773480762, 1359893119, 2600822924,
     528734635, 1541459225]"

definition add32 :: "uint32 \<Rightarrow> uint32 \<Rightarrow> uint32" where
  "add32 x y = (x + y) mod 4294967296"

definition rotr :: "nat \<Rightarrow> uint32 \<Rightarrow> uint32" where
  "rotr n x = x div 2 ^ n + (x mod 2 ^ n) * 2 ^ (32 - n)"

definition shr :: "nat \<Rightarrow> uint32 \<Rightarrow> uint32" where
  "shr n x = x div 2 ^ n"

definition not32 :: "uint32 \<Rightarrow> uint32" where
  "not32 x = 4294967295 - x"

definition Ch :: "uint32 \<Rightarrow> uint32 \<Rightarrow> uint32 \<Rightarrow> uint32" where
  "Ch x y z = (x AND y) XOR (not32 x AND z)"

definition Maj :: "uint32 \<Rightarrow> uint32 \<Rightarrow> uint32 \<Rightarrow> uint32" where
  "Maj x y z = (x AND y) XOR (x AND z) XOR (y AND z)"

definition bsig0 :: "uint32 \<Rightarrow> uint32" where
  "bsig0 x = rotr 2 x XOR rotr 13 x XOR rotr 22 x"

definition bsig1 :: "uint32 \<Rightarrow> uint32" where
  "bsig1 x = rotr 6 x XOR rotr 11 x XOR rotr 25 x"

definition ssig0 :: "uint32 \<Rightarrow> uint32" where
  "ssig0 x = rotr 7 x XOR rotr 18 x XOR shr 3 x"

definition ssig1 :: "uint32 \<Rightarrow> uint32" where
  "ssig1 x = rotr 17 x XOR rotr 19 x XOR shr 10 x"

text \<open>Padding: a one bit, zeros up to 56 modulo 64 bytes, the bit length in 8 bytes.\<close>

definition be64 :: "nat \<Rightarrow> byte list" where
  "be64 n = map (\<lambda>i. (n div 256 ^ i) mod 256) [7, 6, 5, 4, 3, 2, 1, 0]"

definition pad :: "byte list \<Rightarrow> byte list" where
  "pad m = m @ [128] @ replicate ((119 - length m mod 64) mod 64) 0 @ be64 (8 * length m)"

fun be32s :: "byte list \<Rightarrow> uint32 list" where
  "be32s (a # b # c # d # r) = (((a * 256 + b) * 256 + c) * 256 + d) # be32s r"
| "be32s _ = []"

text \<open>
  The message schedule, kept with the most recent word first: one new word for each
  element of the second argument.
\<close>

fun extend_schedule :: "uint32 list \<Rightarrow> 'a list \<Rightarrow> uint32 list" where
  "extend_schedule w [] = w"
| "extend_schedule w (_ # r) =
     extend_schedule (add32 (add32 (ssig1 (w ! 1)) (w ! 6)) (add32 (ssig0 (w ! 14)) (w ! 15)) # w) r"

definition schedule :: "uint32 list \<Rightarrow> uint32 list" where
  "schedule ws = rev (extend_schedule (rev ws) (drop 16 K256))"

fun round256 :: "uint32 list \<Rightarrow> (uint32 \<times> uint32) \<Rightarrow> uint32 list" where
  "round256 [a, b, c, d, e, f, g, h] (k, w) =
     (let t1 = add32 (add32 (add32 h (bsig1 e)) (add32 (Ch e f g) k)) w;
          t2 = add32 (bsig0 a) (Maj a b c)
      in [add32 t1 t2, a, b, c, add32 d t1, e, f, g])"
| "round256 s _ = s"

definition block256 :: "uint32 list \<Rightarrow> uint32 list \<Rightarrow> uint32 list" where
  "block256 h ws = map2 add32 h (foldl round256 h (zip K256 (schedule ws)))"

fun blocks256 :: "uint32 list \<Rightarrow> uint32 list \<Rightarrow> uint32 list" where
  "blocks256 h ws =
     (if length ws < 16 then h else blocks256 (block256 h (take 16 ws)) (drop 16 ws))"

declare blocks256.simps [simp del]

definition be32_bytes :: "uint32 \<Rightarrow> byte list" where
  "be32_bytes x = [x div 16777216, (x div 65536) mod 256, (x div 256) mod 256, x mod 256]"

definition sha256 :: "byte list \<Rightarrow> byte list" where
  "sha256 m = concat (map be32_bytes (blocks256 init256 (be32s (pad m))))"

definition bytes_of :: "string \<Rightarrow> byte list" where
  "bytes_of s = map of_char s"

text \<open>\<^verbatim>\<open>hex.EncodeToString\<close>: two lowercase hex digits for each byte.\<close>

definition EncodeToString :: "byte list \<Rightarrow> string" where
  "EncodeToString bs = concat (map (\<lambda>b. [digitchar (b div 16), digitchar (b mod 16)]) bs)"

section \<open>Blocks (\<^verbatim>\<open>pkg/blockchain/block.go\<close>)\<close>

record Block =
  Index :: go_int
  Timestamp :: string
  Data :: string
  Hash :: string
  PrevHash :: string
  Difficulty :: go_int
  Nonce :: string

text \<open>The zero value \<^verbatim>\<open>Block{}\<close>.\<close>

definition zero_Block :: Block where
  "zero_Block = \<lparr>Index = 0, Timestamp = [], Data = [], Hash = [], PrevHash = [],
                 Difficulty = 0, Nonce = []\<rparr>"

definition CalculateHash :: "Block \<Rightarrow> string" where
  "CalculateHash block =
     (let record = Itoa (Index block) @ Timestamp block @ Data block @ PrevHash block @ Nonce block;
          hashed = sha256 (bytes_of record)
      in EncodeToString hashed)"

definition IsHashValid :: "string \<Rightarrow> go_int \<Rightarrow> panic + bool" where
  "IsHashValid hash difficulty =
     (case Repeat ''0'' difficulty of
        Inl e \<Rightarrow> Inl e
      | Inr pre \<Rightarrow> Inr (HasPrefix hash pre))"

definition IsBlockValid :: "Block \<Rightarrow> Block \<Rightarrow> bool" where
  "IsBlockValid newBlock oldBlock =
     (if Index oldBlock + 1 \<noteq> Index newBlock then False
      else if Hash oldBlock \<noteq> PrevHash newBlock then False
      else if CalculateHash newBlock \<noteq> Hash newBlock then False
      else True)"

text \<open>
  The nonce search of \<^verbatim>\<open>GenerateBlock\<close>, \<^verbatim>\<open>for i := 0; ; i++\<close>. It has no bound, so a
  search that finds no nonce is the value \<open>None\<close>; a panic of \<^verbatim>\<open>IsHashValid\<close> ends it.
\<close>

partial_function (option) mine :: "Block \<Rightarrow> go_int \<Rightarrow> (panic + Block) option" where
  "mine newBlock i =
     (let nb = newBlock\<lparr>Nonce := Sprintf_x i\<rparr>;
          newBlockHash = CalculateHash nb
      in case IsHashValid newBlockHash (Difficulty nb) of
           Inl e \<Rightarrow> Some (Inl e)
         | Inr ok \<Rightarrow> if \<not> ok then mine nb (i + 1) else Some (Inr (nb\<lparr>Hash := newBlockHash\<rparr>)))"

text \<open>
  \<^verbatim>\<open>GenerateBlock\<close>; the reading of the clock, \<^verbatim>\<open>time.Now().String()\<close>, is the argument
  \<open>now\<close>. The error it returns is always \<^verbatim>\<open>nil\<close>.
\<close>

definition GenerateBlock ::
  "string \<Rightarrow> Block \<Rightarrow> string \<Rightarrow> go_int \<Rightarrow> (panic + Block \<times> go_error) option" where
  "GenerateBlock now oldBlock data difficulty =
     (let newBlock = \<lparr>Index = Index oldBlock + 1, Timestamp = now, Data = data, Hash = [],
                      PrevHash = Hash oldBlock, Difficulty = difficulty, Nonce = []\<rparr>
      in case mine newBlock 0 of
           None \<Rightarrow> None
         | Some (Inl e) \<Rightarrow> Some (Inl e)
         | Some (Inr found) \<Rightarrow> Some (Inr (found, None)))"

definition CreateGenesisBlock :: "string \<Rightarrow> Block" where
  "CreateGenesisBlock now =
     (let genesisBlock = \<lparr>Index = 0, Timestamp = now, Data = ''Genesis Block'', Hash = [],
                          PrevHash = [], Difficulty = 1, Nonce = []\<rparr>
      in genesisBlock\<lparr>Hash := CalculateHash genesisBlock\<rparr>)"

section \<open>The chain (\<^verbatim>\<open>pkg/blockchain/chain.go\<close>)\<close>

text \<open>
  The chain of a node. Every method holds the mutex for its whole body, so a method is one
  atomic step on the state, and the mutex itself is not part of the model.
\<close>

record Chain =
  Blocks :: "Block list"

definition NewBlockchain :: "string \<Rightarrow> Chain" where
  "NewBlockchain now = \<lparr>Blocks = [CreateGenesisBlock now]\<rparr>"

text \<open>\<^verbatim>\<open>bc.Blocks[len(bc.Blocks)-1]\<close>, which panics on an empty slice.\<close>

definition GetLatestBlock :: "Chain \<Rightarrow> panic + Block" where
  "GetLatestBlock bc = (if Blocks bc = [] then Inl IndexOutOfRange else Inr (last (Blocks bc)))"

text \<open>
  \<^verbatim>\<open>AddBlock\<close> returns the new state of the chain with its two results. After a panic, and
  while the search runs, the chain is as it was.
\<close>

definition AddBlock ::
  "string \<Rightarrow> Chain \<Rightarrow> string \<Rightarrow> go_int \<Rightarrow> (panic + Chain \<times> Block \<times> go_error) option" where
  "AddBlock now bc data difficulty =
     (case GetLatestBlock bc of
        Inl e \<Rightarrow> Some (Inl e)
      | Inr tip \<Rightarrow>
          (case GenerateBlock now tip data difficulty of
             None \<Rightarrow> None
           | Some (Inl e) \<Rightarrow> Some (Inl e)
           | Some (Inr (newBlock, err)) \<Rightarrow>
               (case err of
                  Some e \<Rightarrow> Some (Inr (bc, zero_Block, Some e))
                | None \<Rightarrow>
                    Some (Inr (if IsBlockValid newBlock tip
                               then bc\<lparr>Blocks := Blocks bc @ [newBlock]\<rparr> else bc,
                               newBlock, None)))))"

text \<open>The validation loop of \<^verbatim>\<open>ReplaceChain\<close>, \<^verbatim>\<open>for i := 1; i < len(newChain); i++\<close>.\<close>

function validate_from :: "Block list \<Rightarrow> nat \<Rightarrow> bool" where
  "validate_from newChain i =
     (if i < length newChain
      then (if \<not> IsBlockValid (newChain ! i) (newChain ! (i - 1)) then False
            else validate_from newChain (i + 1))
      else True)"
  by pat_completeness auto
termination
  by (relation "measure (\<lambda>(newChain, i). length newChain - i)") auto

declare validate_from.simps [simp del]

definition ReplaceChain :: "Chain \<Rightarrow> Block list \<Rightarrow> Chain \<times> bool" where
  "ReplaceChain bc newChain =
     (if length newChain \<le> length (Blocks bc) then (bc, False)
      else if \<not> validate_from newChain 1 then (bc, False)
      else (bc\<lparr>Blocks := newChain\<rparr>, True))"

definition GetBlocks :: "Chain \<Rightarrow> Block list" where
  "GetBlocks bc = Blocks bc"

section \<open>Proof of stake (\<^verbatim>\<open>pkg/consensus\<close>)\<close>

record ProofOfStake =
  pos_Difficulty :: go_int
  Stakers :: "string \<rightharpoonup> go_int"

definition ProofOfStake_ValidateBlock :: "ProofOfStake \<Rightarrow> Block \<Rightarrow> bool" where
  "ProofOfStake_ValidateBlock pos block = True"

section \<open>Block gossip (\<^verbatim>\<open>pkg/network/p2p.go\<close>)\<close>

text \<open>
  The state of a node: its chain, its peers, its own address and the hashes it has seen.
  A request carries the block decoded from its body (\<open>None\<close> when the JSON does not decode)
  and the two places the sender's address is read from.
\<close>

record Peer =
  Address :: string
  LastSeen :: nat

record P2PServer =
  chain :: Chain
  peers :: "string \<rightharpoonup> Peer"
  port :: string
  knownBlocks :: "string \<rightharpoonup> bool"

record Request =
  body :: "Block option"
  X_Forwarded_For :: string
  RemoteAddr :: string

datatype status = StatusOK | StatusBadRequest | Panicked panic

text \<open>What the handler answers, and the peers it forwards the block to.\<close>

record Response =
  code :: status
  forwarded :: "string set"

text \<open>Reading a Go map of booleans: a missing key reads as \<^verbatim>\<open>false\<close>.\<close>

definition known :: "(string \<rightharpoonup> bool) \<Rightarrow> string \<Rightarrow> bool" where
  "known m h = (case m h of None \<Rightarrow> False | Some v \<Rightarrow> v)"

definition handleBroadcastBlock :: "P2PServer \<Rightarrow> Request \<Rightarrow> P2PServer \<times> Response" where
  "handleBroadcastBlock p r =
     (case body r of
        None \<Rightarrow> (p, \<lparr>code = StatusBadRequest, forwarded = {}\<rparr>)
      | Some block \<Rightarrow>
          if known (knownBlocks p) (Hash block) then (p, \<lparr>code = StatusOK, forwarded = {}\<rparr>)
          else
            let p1 = p\<lparr>knownBlocks := (knownBlocks p)(Hash block \<mapsto> True)\<rparr> in
            (case GetLatestBlock (chain p1) of
               Inl e \<Rightarrow> (p1, \<lparr>code = Panicked e, forwarded = {}\<rparr>)
             | Inr tip \<Rightarrow>
                 if IsBlockValid block tip then
                   let p2 = p1\<lparr>chain := fst (ReplaceChain (chain p1) (GetBlocks (chain p1) @ [block]))\<rparr>;
                       peerAddr = (if X_Forwarded_For r = [] then RemoteAddr r
                                   else X_Forwarded_For r)
                   in (p2, \<lparr>code = StatusOK,
                            forwarded = {addr \<in> dom (peers p2). addr \<noteq> peerAddr}\<rparr>)
                 else (p1, \<lparr>code = StatusOK, forwarded = {}\<rparr>)))"

text \<open>\<^verbatim>\<open>AddPeer\<close>; the reading of the clock is the argument \<open>now\<close>.\<close>

definition AddPeer :: "P2PServer \<Rightarrow> string \<Rightarrow> nat \<Rightarrow> P2PServer" where
  "AddPeer p address now = p\<lparr>peers := (peers p)(address \<mapsto> \<lparr>Address = address, LastSeen = now\<rparr>)\<rparr>"

section \<open>The steps of a node\<close>

text \<open>
  Everything in the source that changes the state of a running node: a block received from
  a peer, a block mined through the API (\<^verbatim>\<open>AddBlock\<close> on the shared chain), a chain fetched
  by \<^verbatim>\<open>syncBlockchain\<close> and handed to \<^verbatim>\<open>ReplaceChain\<close>, and a peer added.
\<close>

inductive node_step :: "P2PServer \<Rightarrow> P2PServer \<Rightarrow> bool" where
  gossip: "handleBroadcastBlock p r = (p', resp) \<Longrightarrow> node_step p p'"
| mine: "AddBlock now (chain p) data d = Some (Inr (c', b, err)) \<Longrightarrow> node_step p (p\<lparr>chain := c'\<rparr>)"
| sync: "ReplaceChain (chain p) blocks = (c', ok) \<Longrightarrow> node_step p (p\<lparr>chain := c'\<rparr>)"
| peer: "node_step p (AddPeer p address now)"

section \<open>The chains a node can hold\<close>

text \<open>
  The chains reachable from the start of a node: \<^verbatim>\<open>NewBlockchain\<close>, then any sequence of
  \<^verbatim>\<open>AddBlock\<close> and \<^verbatim>\<open>ReplaceChain\<close> calls that return. A call that panics or does not return
  leaves the chain as it was.
\<close>

inductive reachable :: "Chain \<Rightarrow> bool" where
  start: "reachable (NewBlockchain now)"
| add: "reachable bc \<Longrightarrow> AddBlock now bc data d = Some (Inr (bc', b, err)) \<Longrightarrow> reachable bc'"
| replace: "reachable bc \<Longrightarrow> ReplaceChain bc newChain = (bc', ok) \<Longrightarrow> reachable bc'"

text \<open>The chains built by \<^verbatim>\<open>AddBlock\<close> alone.\<close>

inductive mined :: "Chain \<Rightarrow> bool" where
  start: "mined (NewBlockchain now)"
| add: "mined bc \<Longrightarrow> AddBlock now bc data d = Some (Inr (bc', b, err)) \<Longrightarrow> mined bc'"

section \<open>Properties of chains\<close>

text \<open>Every adjacent pair of blocks satisfies \<^verbatim>\<open>IsBlockValid\<close>.\<close>

definition adjacent_valid :: "Block list \<Rightarrow> bool" where
  "adjacent_valid bs \<longleftrightarrow> (\<forall>i. 0 < i \<and> i < length bs \<longrightarrow> IsBlockValid (bs ! i) (bs ! (i - 1)))"

text \<open>The number of leading zero characters of a hash.\<close>

definition leading_zeros :: "string \<Rightarrow> nat" where
  "leading_zeros s = length (takeWhile (\<lambda>c. c = CHR ''0'') s)"

text \<open>
  The invariant of a stored chain as the specification words it: (a) indices are contiguous
  from 0; (b) every block's \<open>PrevHash\<close> is the hash of its predecessor; (c) every stored hash is
  the digest of the block's fields and has at least as many leading zeros as the block's own
  difficulty asks for.
\<close>

definition stored_chain_invariant :: "Chain \<Rightarrow> bool" where
  "stored_chain_invariant bc \<longleftrightarrow>
     (\<forall>i<length (Blocks bc). Index (Blocks bc ! i) = word_of_nat i)
     \<and> (\<forall>i<length (Blocks bc). 0 < i \<longrightarrow> PrevHash (Blocks bc ! i) = Hash (Blocks bc ! (i - 1)))
     \<and> (\<forall>i<length (Blocks bc). Hash (Blocks bc ! i) = CalculateHash (Blocks bc ! i)
            \<and> sint (Difficulty (Blocks bc ! i)) \<le> int (leading_zeros (Hash (Blocks bc ! i))))"

text \<open>What holds of every link of a chain: index, previous hash and digest of each block but the first.\<close>

definition linked_invariant :: "Chain \<Rightarrow> bool" where
  "linked_invariant bc \<longleftrightarrow>
     Blocks bc \<noteq> []
     \<and> (\<forall>i<length (Blocks bc). 0 < i \<longrightarrow>
          Index (Blocks bc ! i) = Index (Blocks bc ! (i - 1)) + 1
          \<and> PrevHash (Blocks bc ! i) = Hash (Blocks bc ! (i - 1))
          \<and> Hash (Blocks bc ! i) = CalculateHash (Blocks bc ! i))"

text \<open>
  What holds of a chain built by \<^verbatim>\<open>AddBlock\<close> alone: indices from 0, every digest, every
  link, and the difficulty of every block but the genesis block.
\<close>

definition mined_invariant :: "Chain \<Rightarrow> bool" where
  "mined_invariant bc \<longleftrightarrow>
     Blocks bc \<noteq> []
     \<and> (\<forall>i<length (Blocks bc). Index (Blocks bc ! i) = word_of_nat i
            \<and> Hash (Blocks bc ! i) = CalculateHash (Blocks bc ! i))
     \<and> (\<forall>i<length (Blocks bc). 0 < i \<longrightarrow>
            PrevHash (Blocks bc ! i) = Hash (Blocks bc ! (i - 1))
            \<and> sint (Difficulty (Blocks bc ! i)) \<le> int (leading_zeros (Hash (Blocks bc ! i))))"

section \<open>The nonce search, block by block\<close>

text \<open>
  The block that iteration \<open>i\<close> of the search in \<^verbatim>\<open>GenerateBlock\<close> hashes, and a block with
  its digest stored in it.
\<close>

definition candidate :: "string \<Rightarrow> Block \<Rightarrow> string \<Rightarrow> go_int \<Rightarrow> go_int \<Rightarrow> Block" where
  "candidate now oldBlock data difficulty i =
     \<lparr>Index = Index oldBlock + 1, Timestamp = now, Data = data, Hash = [],
      PrevHash = Hash oldBlock, Difficulty = difficulty, Nonce = Sprintf_x i\<rparr>"

definition sealed :: "Block \<Rightarrow> Block" where
  "sealed b = b\<lparr>Hash := CalculateHash b\<rparr>"

text \<open>
  A chain of any length atop any first block: each further block is what \<^verbatim>\<open>GenerateBlock\<close>
  seals at difficulty 0 with an empty payload.
\<close>

definition forge_next :: "Block \<Rightarrow> Block" where
  "forge_next b = sealed (candidate [] b [] 0 0)"

fun forge :: "Block \<Rightarrow> nat \<Rightarrow> Block list" where
  "forge b 0 = [b]"
| "forge b (Suc n) = b # forge (forge_next b) n"

section \<open>Concrete blocks\<close>

text \<open>
  Readings of the clock, \<^verbatim>\<open>time.Now().String()\<close>: when the example node starts, and when it
  seals blocks.
\<close>

abbreviation start_time :: string where
  "start_time \<equiv> ''2024-01-01 00:00:00.123456789 +0000 UTC m=+0.000016926''"

abbreviation seal_time :: string where
  "seal_time \<equiv> ''2024-01-01 00:00:05 +0000 UTC m=+5.000029271''"

abbreviation later_time :: string where
  "later_time \<equiv> ''2024-01-01 00:00:07.512345678 +0000 UTC m=+7.512374949''"

abbreviation other_time :: string where
  "other_time \<equiv> ''2024-01-01 00:00:09.482653917 +0000 UTC m=+9.482670843''"

text \<open>
  A first block that no node made: index 7 and a stored hash that is not its digest. The
  second block is what \<^verbatim>\<open>GenerateBlock\<close> seals atop it at difficulty 1 (nonce \<open>0\<close> fails,
  nonce \<open>1\<close> gives a digest with one leading zero); the third is sealed atop the second at
  difficulty 0.
\<close>

definition example_first :: Block where
  "example_first = \<lparr>Index = 7, Timestamp = ''2023-12-31 23:59:59 +0000 UTC'', Data = ''forged'',
                      Hash = ''cafe'', PrevHash = [], Difficulty = 0, Nonce = []\<rparr>"

definition example_second :: Block where
  "example_second = \<lparr>Index = 8, Timestamp = seal_time, Data = ''tx18'',
       Hash = ''0cd623bce416afd6135f4a02c00f22a080c71088c14e2d4275f02b066e26906c'',
       PrevHash = ''cafe'', Difficulty = 1, Nonce = ''1''\<rparr>"

definition example_third :: Block where
  "example_third = sealed (candidate later_time example_second ''tx 12'' 0 0)"

text \<open>A node that holds the first block and knows one peer, and a request from another peer.\<close>

definition example_node :: P2PServer where
  "example_node = \<lparr>chain = \<lparr>Blocks = [example_first]\<rparr>,
       peers = [''10.0.0.3:8080'' \<mapsto> \<lparr>Address = ''10.0.0.3:8080'', LastSeen = 0\<rparr>],
       port = ''10.0.0.1:8080'', knownBlocks = Map.empty\<rparr>"

definition example_request :: "Block \<Rightarrow> Request" where
  "example_request block = \<lparr>body = Some block, X_Forwarded_For = [], RemoteAddr = ''10.0.0.2:51000''\<rparr>"

text \<open>
  A chain a peer may send: the two blocks, the second one declaring a difficulty of 5 that
  its hash, with one leading zero, does not meet.
\<close>

definition example_peer_chain :: "Block list" where
  "example_peer_chain = [example_first, example_second\<lparr>Difficulty := 5\<rparr>]"

text \<open>The chain of a node that started and mined one block at difficulty 0.\<close>

definition example_mined_chain :: Chain where
  "example_mined_chain =
     \<lparr>Blocks = [CreateGenesisBlock start_time,
                sealed (candidate other_time
                  (CreateGenesisBlock start_time) ''tx 1'' 0 0)]\<rparr>"

text \<open>The example node after it accepted the second block from a peer.\<close>

definition example_node_after :: P2PServer where
  "example_node_after = example_node\<lparr>chain := \<lparr>Blocks = [example_first, example_second]\<rparr>,
       knownBlocks := [Hash example_second \<mapsto> True]\<rparr>"

text \<open>
  The example node after the third block reached it too early, and after it then fetched
  the second block from a peer.
\<close>

definition example_node_marked :: P2PServer where
  "example_node_marked = example_node\<lparr>knownBlocks := [Hash example_third \<mapsto> True]\<rparr>"

definition example_node_synced :: P2PServer where
  "example_node_synced = example_node_marked\<lparr>chain := \<lparr>Blocks = [example_first, example_second]\<rparr>\<rparr>"

section \<open>Replacing the chain\<close>

lemma validate_from_iff:
  "validate_from c i \<longleftrightarrow> (\<forall>j. i \<le> j \<and> j < length c \<longrightarrow> IsBlockValid (c ! j) (c ! (j - 1)))"
proof (induction c i rule: validate_from.induct)
  case (1 c i)
  show ?case
  proof (cases "i < length c")
    case False
    then show ?thesis by (auto simp: validate_from.simps [of c i])
  next
    case True
    show ?thesis
    proof (cases "IsBlockValid (c ! i) (c ! (i - 1))")
      case False
      with True show ?thesis by (auto simp: validate_from.simps [of c i])
    next
      case valid: True
      have "validate_from c i = validate_from c (i + 1)"
        using True valid by (simp add: validate_from.simps [of c i])
      also have "\<dots> \<longleftrightarrow> (\<forall>j. i + 1 \<le> j \<and> j < length c \<longrightarrow> IsBlockValid (c ! j) (c ! (j - 1)))"
        using 1 True valid by simp
      also have "\<dots> \<longleftrightarrow> (\<forall>j. i \<le> j \<and> j < length c \<longrightarrow> IsBlockValid (c ! j) (c ! (j - 1)))"
      proof (intro iffI allI impI)
        fix j assume h: "\<forall>j. i + 1 \<le> j \<and> j < length c \<longrightarrow> IsBlockValid (c ! j) (c ! (j - 1))"
          and j: "i \<le> j \<and> j < length c"
        show "IsBlockValid (c ! j) (c ! (j - 1))"
        proof (cases "j = i")
          case True then show ?thesis using valid by simp
        next
          case False then show ?thesis using h j by simp
        qed
      next
        fix j assume h: "\<forall>j. i \<le> j \<and> j < length c \<longrightarrow> IsBlockValid (c ! j) (c ! (j - 1))"
          and j: "i + 1 \<le> j \<and> j < length c"
        then show "IsBlockValid (c ! j) (c ! (j - 1))" by simp
      qed
      finally show ?thesis .
    qed
  qed
qed

lemma validate_from_1: "validate_from c (Suc 0) = adjacent_valid c"
  unfolding validate_from_iff adjacent_valid_def by (simp add: Suc_le_eq)

lemma ReplaceChain_eq:
  "ReplaceChain bc newChain =
     (if length (Blocks bc) < length newChain \<and> adjacent_valid newChain
      then (bc\<lparr>Blocks := newChain\<rparr>, True) else (bc, False))"
  by (simp add: ReplaceChain_def validate_from_1)

text \<open>
  Claim C1. For every local chain and every candidate, \<^verbatim>\<open>ReplaceChain\<close> installs the
  candidate and returns true if and only if the candidate is strictly longer than the local
  chain and every adjacent pair of its blocks satisfies \<^verbatim>\<open>IsBlockValid\<close>; in every other
  case, equal length included, it returns false and leaves the chain as it was.
\<close>
theorem ReplaceChain_longest_valid:
  "ReplaceChain bc newChain =
     (if length (Blocks bc) < length newChain \<and> adjacent_valid newChain
      then (bc\<lparr>Blocks := newChain\<rparr>, True) else (bc, False))"
  by (rule ReplaceChain_eq)

section \<open>Validity of a block\<close>

lemma CalculateHash_Difficulty [simp]: "CalculateHash (b\<lparr>Difficulty := d\<rparr>) = CalculateHash b"
  by (simp add: CalculateHash_def)

lemma CalculateHash_Hash [simp]: "CalculateHash (b\<lparr>Hash := h\<rparr>) = CalculateHash b"
  by (simp add: CalculateHash_def)

lemma IsBlockValid_iff:
  "IsBlockValid c p \<longleftrightarrow> Index c = Index p + 1 \<and> PrevHash c = Hash p \<and> CalculateHash c = Hash c"
  by (auto simp: IsBlockValid_def)

text \<open>
  Claim C4. \<^verbatim>\<open>IsBlockValid\<close> is true exactly when the candidate's index is the previous
  index plus one, its \<open>PrevHash\<close> is the previous block's hash and its stored hash is
  the digest of its fields; the difficulty fields of the two blocks play no part.
\<close>
theorem IsBlockValid_three_checks:
  "(IsBlockValid newBlock oldBlock \<longleftrightarrow>
      Index newBlock = Index oldBlock + 1 \<and> PrevHash newBlock = Hash oldBlock
      \<and> CalculateHash newBlock = Hash newBlock)
   \<and> IsBlockValid (newBlock\<lparr>Difficulty := d\<rparr>) (oldBlock\<lparr>Difficulty := d'\<rparr>)
       = IsBlockValid newBlock oldBlock"
  by (auto simp: IsBlockValid_def)

section \<open>The difficulty predicate\<close>

lemma concat_replicate_single: "concat (replicate n [c]) = replicate n c"
  by (induction n) simp_all

lemma HasPrefix_replicate: "HasPrefix s (replicate n c) \<longleftrightarrow> n \<le> length (takeWhile (\<lambda>x. x = c) s)"
proof (induction s arbitrary: n)
  case Nil
  then show ?case by (simp add: HasPrefix_def)
next
  case (Cons a s)
  show ?case
  proof (cases n)
    case 0
    then show ?thesis by (simp add: HasPrefix_def)
  next
    case (Suc m)
    have "HasPrefix (a # s) (replicate (Suc m) c) \<longleftrightarrow> a = c \<and> HasPrefix s (replicate m c)"
      by (auto simp: HasPrefix_def)
    then show ?thesis using Cons [of m] Suc by simp
  qed
qed

lemma IsHashValid_iff:
  "IsHashValid h d = Inr True \<longleftrightarrow> 0 \<le> sint d \<and> nat (sint d) \<le> leading_zeros h"
  by (simp add: IsHashValid_def Repeat_def concat_replicate_single HasPrefix_replicate leading_zeros_def)

lemma IsHashValid_zero: "IsHashValid h 0 = Inr True"
  by (simp add: IsHashValid_iff)

lemma IsHashValid_panic: "IsHashValid h d = Inl e \<longleftrightarrow> sint d < 0 \<and> e = NegativeRepeatCount"
  by (auto simp: IsHashValid_def Repeat_def)

section \<open>Sealing a block\<close>

lemma sint_of_nat_small: "n < 2 ^ 63 \<Longrightarrow> sint (word_of_nat n :: 64 word) = int n"
  by (simp add: signed_of_nat signed_take_bit_int_eq_self)

lemma of_nat_wrap: "(word_of_nat (n + 2 ^ 64) :: 64 word) = word_of_nat n"
  by simp

lemma mine_Nonce: "mine (b\<lparr>Nonce := x\<rparr>) i = mine b i"
  using mine.simps [of "b\<lparr>Nonce := x\<rparr>" i] mine.simps [of b i] by simp

lemma mine_unfold:
  "mine b i =
     (case IsHashValid (CalculateHash (b\<lparr>Nonce := Sprintf_x i\<rparr>)) (Difficulty b) of
        Inl e \<Rightarrow> Some (Inl e)
      | Inr ok \<Rightarrow> if ok then Some (Inr (sealed (b\<lparr>Nonce := Sprintf_x i\<rparr>))) else mine b (i + 1))"
  by (subst mine.simps) (simp add: Let_def mine_Nonce sealed_def split: sum.splits)

lemma mine_found:
  "IsHashValid (CalculateHash (b\<lparr>Nonce := Sprintf_x i\<rparr>)) (Difficulty b) = Inr True
   \<Longrightarrow> mine b i = Some (Inr (sealed (b\<lparr>Nonce := Sprintf_x i\<rparr>)))"
  by (subst mine_unfold) simp

lemma mine_next:
  "IsHashValid (CalculateHash (b\<lparr>Nonce := Sprintf_x i\<rparr>)) (Difficulty b) = Inr False
   \<Longrightarrow> mine b i = mine b (i + 1)"
  by (subst mine_unfold) simp

lemma mine_panics:
  "sint (Difficulty b) < 0 \<Longrightarrow> mine b i = Some (Inl NegativeRepeatCount)"
  by (subst mine_unfold) (simp add: IsHashValid_def Repeat_def)

lemma mine_first:
  "IsHashValid (CalculateHash (b\<lparr>Nonce := Sprintf_x (i + of_nat n)\<rparr>)) (Difficulty b) = Inr True
   \<Longrightarrow> (\<forall>m<n. IsHashValid (CalculateHash (b\<lparr>Nonce := Sprintf_x (i + of_nat m)\<rparr>)) (Difficulty b) = Inr False)
   \<Longrightarrow> mine b i = Some (Inr (sealed (b\<lparr>Nonce := Sprintf_x (i + of_nat n)\<rparr>)))"
proof (induction n arbitrary: i)
  case 0
  then show ?case by (simp add: mine_found)
next
  case (Suc n)
  have fail: "IsHashValid (CalculateHash (b\<lparr>Nonce := Sprintf_x i\<rparr>)) (Difficulty b) = Inr False"
    using Suc.prems(2)[rule_format, of 0] by simp
  have "mine b (i + 1) = Some (Inr (sealed (b\<lparr>Nonce := Sprintf_x (i + 1 + of_nat n)\<rparr>)))"
  proof (rule Suc.IH)
    show "IsHashValid (CalculateHash (b\<lparr>Nonce := Sprintf_x (i + 1 + of_nat n)\<rparr>)) (Difficulty b) = Inr True"
      using Suc.prems(1) by (simp add: ac_simps)
    show "\<forall>m<n. IsHashValid (CalculateHash (b\<lparr>Nonce := Sprintf_x (i + 1 + of_nat m)\<rparr>)) (Difficulty b) = Inr False"
    proof (intro allI impI)
      fix m assume "m < n"
      then show "IsHashValid (CalculateHash (b\<lparr>Nonce := Sprintf_x (i + 1 + of_nat m)\<rparr>)) (Difficulty b) = Inr False"
        using Suc.prems(2)[rule_format, of "Suc m"] by (simp add: ac_simps)
    qed
  qed
  then show ?case using mine_next [OF fail] by (simp add: ac_simps)
qed

lemma mine_result:
  assumes returned: "mine b i = Some r"
  shows "(sint (Difficulty b) < 0 \<and> r = Inl NegativeRepeatCount) \<or>
     (\<exists>n. r = Inr (sealed (b\<lparr>Nonce := Sprintf_x (i + of_nat n)\<rparr>))
        \<and> IsHashValid (CalculateHash (b\<lparr>Nonce := Sprintf_x (i + of_nat n)\<rparr>)) (Difficulty b) = Inr True
        \<and> (\<forall>m<n. IsHashValid (CalculateHash (b\<lparr>Nonce := Sprintf_x (i + of_nat m)\<rparr>)) (Difficulty b) = Inr False))"
proof (rule mine.raw_induct [OF _ returned], goal_cases)
  case (1 mine' b i r)
  let ?h = "CalculateHash (b\<lparr>Nonce := Sprintf_x i\<rparr>)"
  show ?case
  proof (cases "IsHashValid ?h (Difficulty b)")
    case (Inl e)
    then have "r = Inl e" using 1(2) by simp
    moreover have "sint (Difficulty b) < 0 \<and> e = NegativeRepeatCount"
      using Inl by (simp add: IsHashValid_panic)
    ultimately show ?thesis by simp
  next
    case (Inr ok)
    show ?thesis
    proof (cases ok)
      case True
      with Inr 1(2) have "r = Inr (sealed (b\<lparr>Nonce := Sprintf_x i\<rparr>))"
        by (auto simp: sealed_def Let_def)
      with Inr True show ?thesis by (intro disjI2 exI [of _ 0]) simp
    next
      case False
      with Inr 1(2) have rec: "mine' (b\<lparr>Nonce := Sprintf_x i\<rparr>) (i + 1) = Some r"
        by (simp add: Let_def)
      from 1(1)[OF rec] have ih:
        "sint (Difficulty b) < 0 \<and> r = Inl NegativeRepeatCount \<or>
         (\<exists>n. r = Inr (sealed (b\<lparr>Nonce := Sprintf_x (i + 1 + of_nat n)\<rparr>))
            \<and> IsHashValid (CalculateHash (b\<lparr>Nonce := Sprintf_x (i + 1 + of_nat n)\<rparr>)) (Difficulty b) = Inr True
            \<and> (\<forall>m<n. IsHashValid (CalculateHash (b\<lparr>Nonce := Sprintf_x (i + 1 + of_nat m)\<rparr>)) (Difficulty b) = Inr False))"
        by simp
      from ih show ?thesis
      proof (elim disjE exE conjE)
        assume "sint (Difficulty b) < 0" "r = Inl NegativeRepeatCount"
        then show ?thesis by simp
      next
        fix n
        assume r: "r = Inr (sealed (b\<lparr>Nonce := Sprintf_x (i + 1 + of_nat n)\<rparr>))"
          and ok: "IsHashValid (CalculateHash (b\<lparr>Nonce := Sprintf_x (i + 1 + of_nat n)\<rparr>)) (Difficulty b) = Inr True"
          and before: "\<forall>m<n. IsHashValid (CalculateHash (b\<lparr>Nonce := Sprintf_x (i + 1 + of_nat m)\<rparr>)) (Difficulty b) = Inr False"
        have "\<forall>m<Suc n. IsHashValid (CalculateHash (b\<lparr>Nonce := Sprintf_x (i + of_nat m)\<rparr>)) (Difficulty b) = Inr False"
        proof (intro allI impI)
          fix m assume m: "m < Suc n"
          show "IsHashValid (CalculateHash (b\<lparr>Nonce := Sprintf_x (i + of_nat m)\<rparr>)) (Difficulty b) = Inr False"
          proof (cases m)
            case 0
            then show ?thesis using Inr False by simp
          next
            case (Suc k)
            then show ?thesis using before [rule_format, of k] m by (simp add: ac_simps)
          qed
        qed
        moreover have "r = Inr (sealed (b\<lparr>Nonce := Sprintf_x (i + of_nat (Suc n))\<rparr>))"
          using r by (simp add: ac_simps)
        moreover have "IsHashValid (CalculateHash (b\<lparr>Nonce := Sprintf_x (i + of_nat (Suc n))\<rparr>)) (Difficulty b) = Inr True"
          using ok by (simp add: ac_simps)
        ultimately show ?thesis by blast
      qed
    qed
  qed
qed

lemma candidate_Nonce:
  "candidate now oldBlock data d i = (candidate now oldBlock data d j)\<lparr>Nonce := Sprintf_x i\<rparr>"
  by (simp add: candidate_def)

lemma GenerateBlock_mine:
  "GenerateBlock now oldBlock data d =
     (case mine (candidate now oldBlock data d 0) 0 of
        None \<Rightarrow> None
      | Some (Inl e) \<Rightarrow> Some (Inl e)
      | Some (Inr b) \<Rightarrow> Some (Inr (b, None)))"
proof -
  have "mine (candidate now oldBlock data d 0) 0 = mine ((candidate now oldBlock data d 0)\<lparr>Nonce := []\<rparr>) 0"
    by (simp only: mine_Nonce)
  then show ?thesis
    by (simp add: GenerateBlock_def candidate_def)
qed

lemma IsHashValid_not_True:
  "0 \<le> sint d \<Longrightarrow> IsHashValid h d \<noteq> Inr True \<Longrightarrow> IsHashValid h d = Inr False"
  by (auto simp: IsHashValid_def Repeat_def)

lemma lowerhex_0: "lowerhex 0 = ''0''"
  by (simp add: lowerhex.simps digitchar_def)

lemma Sprintf_x_0: "Sprintf_x 0 = ''0''"
  by (simp add: Sprintf_x_def lowerhex_0)

lemma Sprintf_x_small: "n < 2 ^ 63 \<Longrightarrow> Sprintf_x (word_of_nat n) = lowerhex n"
  by (simp add: Sprintf_x_def sint_of_nat_small)

lemma GenerateBlock_returns:
  assumes "GenerateBlock now oldBlock data d = Some (Inr (b, err))"
  shows "err = None \<and> 0 \<le> sint d \<and>
     (\<exists>n<2 ^ 64. b = sealed (candidate now oldBlock data d (word_of_nat n))
        \<and> IsHashValid (CalculateHash (candidate now oldBlock data d (word_of_nat n))) d = Inr True
        \<and> (\<forall>m<n. IsHashValid (CalculateHash (candidate now oldBlock data d (word_of_nat m))) d = Inr False))"
proof -
  let ?c = "candidate now oldBlock data d"
  from assms have m: "mine (?c 0) 0 = Some (Inr b)" and err: "err = None"
    by (auto simp: GenerateBlock_mine split: option.splits sum.splits)
  have diff: "Difficulty (?c 0) = d" by (simp add: candidate_def)
  from mine_result [OF m] obtain n where
    b: "b = sealed ((?c 0)\<lparr>Nonce := Sprintf_x (0 + of_nat n)\<rparr>)"
    and ok: "IsHashValid (CalculateHash ((?c 0)\<lparr>Nonce := Sprintf_x (0 + of_nat n)\<rparr>)) (Difficulty (?c 0)) = Inr True"
    and before: "\<forall>m<n. IsHashValid (CalculateHash ((?c 0)\<lparr>Nonce := Sprintf_x (0 + of_nat m)\<rparr>)) (Difficulty (?c 0)) = Inr False"
    by auto
  have cn: "\<And>k. (?c 0)\<lparr>Nonce := Sprintf_x (0 + of_nat k)\<rparr> = ?c (of_nat k)"
    by (simp add: candidate_def)
  have ok': "IsHashValid (CalculateHash (?c (of_nat n))) d = Inr True"
    using ok by (simp only: cn diff)
  have before': "\<forall>m<n. IsHashValid (CalculateHash (?c (of_nat m))) d = Inr False"
    using before by (simp only: cn diff)
  have "n < 2 ^ 64"
  proof (rule ccontr)
    assume "\<not> n < 2 ^ 64"
    then have "n - 2 ^ 64 < n" and "n = (n - 2 ^ 64) + 2 ^ 64" by simp_all
    then have "(word_of_nat (n - 2 ^ 64) :: 64 word) = word_of_nat n"
      using of_nat_wrap [of "n - 2 ^ 64"] by simp
    with before' \<open>n - 2 ^ 64 < n\<close> ok' show False by (metis Inl_Inr_False sum.inject(2))
  qed
  moreover have "0 \<le> sint d" using ok' by (simp add: IsHashValid_iff)
  ultimately show ?thesis using err b ok' before' by (auto simp only: cn)
qed

lemma GenerateBlock_total:
  assumes d: "0 \<le> sint d"
    and ok: "IsHashValid (CalculateHash (candidate now oldBlock data d (word_of_nat k))) d = Inr True"
  shows "\<exists>b. GenerateBlock now oldBlock data d = Some (Inr (b, None))"
proof -
  let ?c = "candidate now oldBlock data d"
  let ?ok = "\<lambda>k. IsHashValid (CalculateHash (?c (word_of_nat k))) d = Inr True"
  define n where "n = (LEAST k. ?ok k)"
  have n: "?ok n" unfolding n_def using ok by (rule LeastI)
  have less: "\<And>m. m < n \<Longrightarrow> \<not> ?ok m" unfolding n_def by (rule not_less_Least)
  have cn: "\<And>k. (?c 0)\<lparr>Nonce := Sprintf_x (0 + of_nat k)\<rparr> = ?c (of_nat k)"
    by (simp add: candidate_def)
  have diff: "Difficulty (?c 0) = d" by (simp add: candidate_def)
  have "mine (?c 0) 0 = Some (Inr (sealed ((?c 0)\<lparr>Nonce := Sprintf_x (0 + of_nat n)\<rparr>)))"
  proof (rule mine_first)
    show "IsHashValid (CalculateHash ((?c 0)\<lparr>Nonce := Sprintf_x (0 + of_nat n)\<rparr>)) (Difficulty (?c 0)) = Inr True"
      using n by (simp only: cn diff)
    show "\<forall>m<n. IsHashValid (CalculateHash ((?c 0)\<lparr>Nonce := Sprintf_x (0 + of_nat m)\<rparr>)) (Difficulty (?c 0)) = Inr False"
      using less d by (simp only: cn diff) (blast intro: IsHashValid_not_True)
  qed
  then show ?thesis by (simp add: GenerateBlock_mine)
qed

lemma GenerateBlock_zero:
  "GenerateBlock now oldBlock data 0 = Some (Inr (sealed (candidate now oldBlock data 0 0), None))"
proof -
  have "mine (candidate now oldBlock data 0 0) 0
        = Some (Inr (sealed ((candidate now oldBlock data 0 0)\<lparr>Nonce := Sprintf_x 0\<rparr>)))"
    by (rule mine_found) (simp add: candidate_def IsHashValid_zero)
  then show ?thesis by (simp add: GenerateBlock_mine candidate_def)
qed

lemma sealed_simps [simp]:
  "Index (sealed b) = Index b" "Timestamp (sealed b) = Timestamp b" "Data (sealed b) = Data b"
  "PrevHash (sealed b) = PrevHash b" "Difficulty (sealed b) = Difficulty b"
  "Nonce (sealed b) = Nonce b" "Hash (sealed b) = CalculateHash b"
  "CalculateHash (sealed b) = CalculateHash b"
  by (simp_all add: sealed_def)

text \<open>
  Claim C3. A block that \<^verbatim>\<open>GenerateBlock\<close> returns has the previous index plus one and
  the previous hash as \<open>PrevHash\<close>; its nonce is the rendering of the first counter value
  of the search \<open>0, 1, 2, \<dots>\<close> whose digest has \<open>d\<close> leading zeros (the lowercase hex of
  that number, as long as it is below \<open>2^63\<close>, where the 64-bit counter would turn negative);
  its stored hash is that digest and has at least \<open>d\<close> leading zeros. At difficulty 0 the first
  nonce, \<open>0\<close>, is accepted. The search returns whenever some counter value has such a digest.
\<close>
theorem GenerateBlock_seals:
  "(GenerateBlock now oldBlock data d = Some (Inr (b, err)) \<longrightarrow>
      err = None \<and> 0 \<le> sint d
      \<and> Index b = Index oldBlock + 1 \<and> PrevHash b = Hash oldBlock
      \<and> (\<exists>n<2 ^ 64.
            Nonce b = Sprintf_x (word_of_nat n) \<and> (n < 2 ^ 63 \<longrightarrow> Nonce b = lowerhex n)
            \<and> b = sealed (candidate now oldBlock data d (word_of_nat n))
            \<and> (\<forall>m<n. IsHashValid (CalculateHash (candidate now oldBlock data d (word_of_nat m))) d
                        = Inr False))
      \<and> Hash b = CalculateHash b \<and> IsHashValid (Hash b) d = Inr True
      \<and> nat (sint d) \<le> leading_zeros (Hash b))
   \<and> (\<exists>b0. GenerateBlock now oldBlock data 0 = Some (Inr (b0, None)) \<and> Nonce b0 = ''0'')
   \<and> (0 \<le> sint d
        \<and> IsHashValid (CalculateHash (candidate now oldBlock data d (word_of_nat k))) d = Inr True
      \<longrightarrow> (\<exists>b'. GenerateBlock now oldBlock data d = Some (Inr (b', None))))"
proof (intro conjI impI)
  assume r: "GenerateBlock now oldBlock data d = Some (Inr (b, err))"
  from GenerateBlock_returns [OF r] obtain n where
    err: "err = None" and d: "0 \<le> sint d" and n: "n < 2 ^ 64"
    and b: "b = sealed (candidate now oldBlock data d (word_of_nat n))"
    and ok: "IsHashValid (CalculateHash (candidate now oldBlock data d (word_of_nat n))) d = Inr True"
    and before: "\<forall>m<n. IsHashValid (CalculateHash (candidate now oldBlock data d (word_of_nat m))) d = Inr False"
    by blast
  show "err = None" by (rule err)
  show "0 \<le> sint d" by (rule d)
  show "Index b = Index oldBlock + 1" by (simp add: b candidate_def)
  show "PrevHash b = Hash oldBlock" by (simp add: b candidate_def)
  show "Hash b = CalculateHash b" by (simp add: b)
  show valid: "IsHashValid (Hash b) d = Inr True" using ok by (simp add: b)
  show "nat (sint d) \<le> leading_zeros (Hash b)" using valid by (simp add: IsHashValid_iff)
  have "Nonce b = Sprintf_x (word_of_nat n)" by (simp add: b candidate_def)
  moreover have "n < 2 ^ 63 \<longrightarrow> Nonce b = lowerhex n"
    by (simp add: b candidate_def Sprintf_x_small)
  ultimately show "\<exists>n<2 ^ 64.
            Nonce b = Sprintf_x (word_of_nat n) \<and> (n < 2 ^ 63 \<longrightarrow> Nonce b = lowerhex n)
            \<and> b = sealed (candidate now oldBlock data d (word_of_nat n))
            \<and> (\<forall>m<n. IsHashValid (CalculateHash (candidate now oldBlock data d (word_of_nat m))) d
                        = Inr False)"
    using n b before by blast
next
  show "\<exists>b0. GenerateBlock now oldBlock data 0 = Some (Inr (b0, None)) \<and> Nonce b0 = ''0''"
    using GenerateBlock_zero [of now oldBlock data]
    by (intro exI [of _ "sealed (candidate now oldBlock data 0 0)"]) (simp add: candidate_def Sprintf_x_0)
next
  assume "0 \<le> sint d
        \<and> IsHashValid (CalculateHash (candidate now oldBlock data d (word_of_nat k))) d = Inr True"
  then show "\<exists>b'. GenerateBlock now oldBlock data d = Some (Inr (b', None))"
    using GenerateBlock_total by blast
qed

section \<open>Appending a block and the reachable chains\<close>

lemma GenerateBlock_valid:
  assumes "GenerateBlock now tip data d = Some (Inr (b, err))"
  shows "IsBlockValid b tip"
proof -
  from GenerateBlock_returns [OF assms] obtain n where
    "b = sealed (candidate now tip data d (word_of_nat n))" by blast
  then show ?thesis by (simp add: IsBlockValid_iff candidate_def)
qed

lemma AddBlock_result:
  assumes "AddBlock now bc data d = Some (Inr (bc', b, err))"
  shows "Blocks bc \<noteq> [] \<and> GenerateBlock now (last (Blocks bc)) data d = Some (Inr (b, None))
         \<and> err = None \<and> IsBlockValid b (last (Blocks bc)) \<and> bc' = bc\<lparr>Blocks := Blocks bc @ [b]\<rparr>"
proof -
  from assms have ne: "Blocks bc \<noteq> []"
    by (auto simp: AddBlock_def GetLatestBlock_def split: if_splits)
  then have tip: "GetLatestBlock bc = Inr (last (Blocks bc))" by (simp add: GetLatestBlock_def)
  from assms tip obtain b' e where g: "GenerateBlock now (last (Blocks bc)) data d = Some (Inr (b', e))"
    by (auto simp: AddBlock_def split: option.splits sum.splits)
  from GenerateBlock_returns [OF g] have e: "e = None" by blast
  have v: "IsBlockValid b' (last (Blocks bc))" by (rule GenerateBlock_valid [OF g])
  from assms tip g e v have "b = b'" "err = None" "bc' = bc\<lparr>Blocks := Blocks bc @ [b']\<rparr>"
    by (auto simp: AddBlock_def)
  with ne g e v show ?thesis by simp
qed

lemma adjacent_valid_snoc:
  assumes "adjacent_valid bs" "bs \<noteq> []" "IsBlockValid b (last bs)"
  shows "adjacent_valid (bs @ [b])"
  unfolding adjacent_valid_def
proof (intro allI impI)
  fix i assume i: "0 < i \<and> i < length (bs @ [b])"
  show "IsBlockValid ((bs @ [b]) ! i) ((bs @ [b]) ! (i - 1))"
  proof (cases "i < length bs")
    case True
    then have "i - 1 < length bs" by simp
    with True show ?thesis using assms(1) i by (simp add: adjacent_valid_def nth_append)
  next
    case False
    then have "i = length bs" using i by simp
    then show ?thesis using assms(2,3) by (simp add: nth_append last_conv_nth)
  qed
qed

lemma reachable_adjacent_valid: "reachable bc \<Longrightarrow> Blocks bc \<noteq> [] \<and> adjacent_valid (Blocks bc)"
proof (induction rule: reachable.induct)
  case (start now)
  then show ?case by (simp add: NewBlockchain_def adjacent_valid_def)
next
  case (add bc now data d bc' b err)
  from AddBlock_result [OF add.hyps(2)] add.IH show ?case
    by (auto intro: adjacent_valid_snoc)
next
  case (replace bc newChain bc' ok)
  then show ?case
    by (auto simp: ReplaceChain_eq split: if_splits)
qed

lemma mined_reachable: "mined bc \<Longrightarrow> reachable bc"
  by (induction rule: mined.induct) (auto intro: reachable.intros)

lemma genesis_hash: "Hash (CreateGenesisBlock now) = CalculateHash (CreateGenesisBlock now)"
  by (simp add: CreateGenesisBlock_def CalculateHash_def Let_def)

lemma genesis_index: "Index (CreateGenesisBlock now) = 0"
  by (simp add: CreateGenesisBlock_def Let_def)

lemma mined_invariant_holds: "mined bc \<Longrightarrow> mined_invariant bc"
proof (induction rule: mined.induct)
  case (start now)
  then show ?case
    by (simp add: mined_invariant_def NewBlockchain_def genesis_hash genesis_index)
next
  case (add bc now data d bc' b err)
  let ?bs = "Blocks bc"
  from AddBlock_result [OF add.hyps(2)] have ne: "?bs \<noteq> []"
    and g: "GenerateBlock now (last ?bs) data d = Some (Inr (b, None))"
    and v: "IsBlockValid b (last ?bs)" and bc': "bc' = bc\<lparr>Blocks := ?bs @ [b]\<rparr>" by simp_all
  from GenerateBlock_returns [OF g] obtain n where d: "0 \<le> sint d"
    and b: "b = sealed (candidate now (last ?bs) data d (word_of_nat n))"
    and ok: "IsHashValid (CalculateHash (candidate now (last ?bs) data d (word_of_nat n))) d = Inr True"
    by blast
  have diff: "Difficulty b = d" and hash: "Hash b = CalculateHash b"
    by (simp_all add: b candidate_def)
  have zeros: "sint (Difficulty b) \<le> int (leading_zeros (Hash b))"
    using ok d by (simp add: IsHashValid_iff b candidate_def)
  have last_index: "Index (last ?bs) = word_of_nat (length ?bs - 1)"
    using add.IH ne by (simp add: mined_invariant_def last_conv_nth)
  have idx: "Index b = word_of_nat (length ?bs)"
  proof -
    have "Index b = Index (last ?bs) + 1" using v by (simp add: IsBlockValid_iff)
    also have "\<dots> = word_of_nat (Suc (length ?bs - 1))" by (simp add: last_index)
    finally show ?thesis using ne by simp
  qed
  have prev: "PrevHash b = Hash (?bs ! (length ?bs - 1))"
    using v ne by (simp add: IsBlockValid_iff last_conv_nth)
  show ?case
    unfolding mined_invariant_def bc'
  proof (intro conjI allI impI)
    show "Blocks (bc\<lparr>Blocks := ?bs @ [b]\<rparr>) \<noteq> []" by simp
  next
    fix i assume "i < length (Blocks (bc\<lparr>Blocks := ?bs @ [b]\<rparr>))"
    then have "i < length ?bs \<or> i = length ?bs" by auto
    then show "Index (Blocks (bc\<lparr>Blocks := ?bs @ [b]\<rparr>) ! i) = word_of_nat i"
      and "Hash (Blocks (bc\<lparr>Blocks := ?bs @ [b]\<rparr>) ! i) = CalculateHash (Blocks (bc\<lparr>Blocks := ?bs @ [b]\<rparr>) ! i)"
      using add.IH idx hash by (auto simp: mined_invariant_def nth_append)
  next
    fix i assume i: "i < length (Blocks (bc\<lparr>Blocks := ?bs @ [b]\<rparr>))" "0 < i"
    then have c: "i < length ?bs \<or> i = length ?bs" by auto
    from c i show "PrevHash (Blocks (bc\<lparr>Blocks := ?bs @ [b]\<rparr>) ! i) = Hash (Blocks (bc\<lparr>Blocks := ?bs @ [b]\<rparr>) ! (i - 1))"
      using add.IH prev by (auto simp: mined_invariant_def nth_append)
    from c i show "sint (Difficulty (Blocks (bc\<lparr>Blocks := ?bs @ [b]\<rparr>) ! i))
        \<le> int (leading_zeros (Hash (Blocks (bc\<lparr>Blocks := ?bs @ [b]\<rparr>) ! i)))"
      using add.IH zeros by (auto simp: mined_invariant_def nth_append)
  qed
qed

text \<open>
  Claim C2, amended. Every chain reachable from the start of a node is non-empty, and every
  block but the first has the index of its predecessor plus one, the hash of its predecessor
  as \<open>PrevHash\<close>, and the digest of its fields as stored hash. A chain built by \<^verbatim>\<open>AddBlock\<close>
  alone has, in addition, indices from 0, the digest stored in every block, and at least
  difficulty-many leading zeros in every block but the genesis block.
\<close>
theorem reachable_chain_linked:
  "(reachable bc \<longrightarrow> linked_invariant bc) \<and> (mined bc \<longrightarrow> mined_invariant bc)"
proof (intro conjI impI)
  assume "reachable bc"
  then have "Blocks bc \<noteq> []" and "adjacent_valid (Blocks bc)"
    using reachable_adjacent_valid by simp_all
  then show "linked_invariant bc"
    by (auto simp: linked_invariant_def adjacent_valid_def IsBlockValid_iff)
next
  assume "mined bc"
  then show "mined_invariant bc" by (rule mined_invariant_holds)
qed

text \<open>
  Claim C5. Neither \<^verbatim>\<open>AddBlock\<close> nor \<^verbatim>\<open>ReplaceChain\<close> makes the stored chain shorter.
\<close>
theorem chain_length_monotonic:
  "(AddBlock now bc data d = Some (Inr (bc', b, err)) \<longrightarrow> length (Blocks bc) \<le> length (Blocks bc'))
   \<and> length (Blocks bc) \<le> length (Blocks (fst (ReplaceChain bc newChain)))"
proof (intro conjI impI)
  assume "AddBlock now bc data d = Some (Inr (bc', b, err))"
  from AddBlock_result [OF this] show "length (Blocks bc) \<le> length (Blocks bc')" by simp
next
  show "length (Blocks bc) \<le> length (Blocks (fst (ReplaceChain bc newChain)))"
    by (simp add: ReplaceChain_eq)
qed

text \<open>
  Claim C7. \<^verbatim>\<open>AddBlock\<close> seals a block atop the current tip, appends it only if
  \<^verbatim>\<open>IsBlockValid\<close> holds for it against that tip, and returns the sealed block whether or
  not the chain was extended.
\<close>
theorem AddBlock_returns_sealed:
  "(AddBlock now bc data d = Some (Inr (bc', b, err)) \<longrightarrow>
      (\<exists>tip. GetLatestBlock bc = Inr tip
         \<and> GenerateBlock now tip data d = Some (Inr (b, None)) \<and> err = None
         \<and> bc' = (if IsBlockValid b tip then bc\<lparr>Blocks := Blocks bc @ [b]\<rparr> else bc)))
   \<and> (GetLatestBlock bc = Inr tip \<and> GenerateBlock now tip data d = Some (Inr (b, e)) \<longrightarrow>
        AddBlock now bc data d
          = Some (Inr (if IsBlockValid b tip then bc\<lparr>Blocks := Blocks bc @ [b]\<rparr> else bc, b, None)))"
proof (intro conjI impI)
  assume "AddBlock now bc data d = Some (Inr (bc', b, err))"
  from AddBlock_result [OF this]
  show "\<exists>tip. GetLatestBlock bc = Inr tip
         \<and> GenerateBlock now tip data d = Some (Inr (b, None)) \<and> err = None
         \<and> bc' = (if IsBlockValid b tip then bc\<lparr>Blocks := Blocks bc @ [b]\<rparr> else bc)"
    by (intro exI [of _ "last (Blocks bc)"]) (simp add: GetLatestBlock_def)
next
  assume a: "GetLatestBlock bc = Inr tip \<and> GenerateBlock now tip data d = Some (Inr (b, e))"
  then have "e = None" using GenerateBlock_returns by blast
  with a show "AddBlock now bc data d
          = Some (Inr (if IsBlockValid b tip then bc\<lparr>Blocks := Blocks bc @ [b]\<rparr> else bc, b, None))"
    by (simp add: AddBlock_def)
qed

section \<open>Gossip\<close>

lemma known_update [simp]: "known (m(h \<mapsto> True)) h"
  by (simp add: known_def)

lemma handleBroadcastBlock_known:
  "body r = Some block \<Longrightarrow> known (knownBlocks p) (Hash block)
   \<Longrightarrow> handleBroadcastBlock p r = (p, \<lparr>code = StatusOK, forwarded = {}\<rparr>)"
  by (simp add: handleBroadcastBlock_def)

lemma handleBroadcastBlock_marks:
  "body r = Some block \<Longrightarrow> known (knownBlocks (fst (handleBroadcastBlock p r))) (Hash block)"
  by (auto simp: handleBroadcastBlock_def Let_def split: sum.splits)

lemma handleBroadcastBlock_keeps_known:
  "known (knownBlocks p) h \<Longrightarrow> known (knownBlocks (fst (handleBroadcastBlock p r))) h"
  by (auto simp: handleBroadcastBlock_def Let_def known_def split: sum.splits option.splits)

text \<open>
  Claim C6. Handling the same request twice leaves the node in the state it has after
  handling it once; the second delivery of a block is answered \<open>200 OK\<close> and forwards
  nothing, as is every delivery of a block whose hash is already known.
\<close>
theorem gossip_idempotent:
  "fst (handleBroadcastBlock (fst (handleBroadcastBlock p r)) r) = fst (handleBroadcastBlock p r)
   \<and> (body r = Some block \<and> body r' = Some block \<longrightarrow>
        handleBroadcastBlock (fst (handleBroadcastBlock p r)) r'
          = (fst (handleBroadcastBlock p r), \<lparr>code = StatusOK, forwarded = {}\<rparr>))
   \<and> (body r = Some block \<and> known (knownBlocks p) (Hash block) \<longrightarrow>
        handleBroadcastBlock p r = (p, \<lparr>code = StatusOK, forwarded = {}\<rparr>))"
proof (intro conjI impI)
  show "fst (handleBroadcastBlock (fst (handleBroadcastBlock p r)) r) = fst (handleBroadcastBlock p r)"
  proof (cases "body r")
    case None
    then show ?thesis by (simp add: handleBroadcastBlock_def)
  next
    case (Some block)
    then show ?thesis
      using handleBroadcastBlock_known [OF Some handleBroadcastBlock_marks [OF Some, of p]] by simp
  qed
next
  assume b: "body r = Some block \<and> body r' = Some block"
  then have "known (knownBlocks (fst (handleBroadcastBlock p r))) (Hash block)"
    by (simp add: handleBroadcastBlock_marks)
  with b show "handleBroadcastBlock (fst (handleBroadcastBlock p r)) r'
          = (fst (handleBroadcastBlock p r), \<lparr>code = StatusOK, forwarded = {}\<rparr>)"
    by (simp add: handleBroadcastBlock_known)
next
  assume "body r = Some block \<and> known (knownBlocks p) (Hash block)"
  then show "handleBroadcastBlock p r = (p, \<lparr>code = StatusOK, forwarded = {}\<rparr>)"
    by (simp add: handleBroadcastBlock_known)
qed

lemma node_step_keeps_known:
  "node_step p p' \<Longrightarrow> known (knownBlocks p) h \<Longrightarrow> known (knownBlocks p') h"
proof (induction rule: node_step.induct)
  case (gossip p r p' resp)
  then show ?case using handleBroadcastBlock_keeps_known [of p h r] by simp
qed (simp_all add: AddPeer_def)

lemma node_steps_keep_known:
  "node_step\<^sup>*\<^sup>* p p' \<Longrightarrow> known (knownBlocks p) h \<Longrightarrow> known (knownBlocks p') h"
  by (induction rule: rtranclp_induct) (auto intro: node_step_keeps_known)

text \<open>
  Claim C10. The handler marks the hash of a block as known before it validates the block:
  when the first delivery of a block fails \<^verbatim>\<open>IsBlockValid\<close> against the tip, the chain is
  unchanged, the hash is known, and after any further steps of the node every delivery of
  that block is answered without touching the node.
\<close>
theorem rejected_block_never_accepted:
  assumes first: "handleBroadcastBlock p r = (p1, resp)"
    and block: "body r = Some block"
    and new: "\<not> known (knownBlocks p) (Hash block)"
    and tip: "GetLatestBlock (chain p) = Inr tip"
    and invalid: "\<not> IsBlockValid block tip"
    and later: "node_step\<^sup>*\<^sup>* p1 p2"
    and again: "body r' = Some block"
  shows "chain p1 = chain p \<and> known (knownBlocks p1) (Hash block)
         \<and> handleBroadcastBlock p2 r' = (p2, \<lparr>code = StatusOK, forwarded = {}\<rparr>)"
proof -
  from first block new tip invalid
  have p1: "p1 = p\<lparr>knownBlocks := (knownBlocks p)(Hash block \<mapsto> True)\<rparr>"
    by (simp add: handleBroadcastBlock_def Let_def)
  then have k1: "known (knownBlocks p1) (Hash block)" by simp
  then have "known (knownBlocks p2) (Hash block)" using later by (rule node_steps_keep_known [rotated])
  then have "handleBroadcastBlock p2 r' = (p2, \<lparr>code = StatusOK, forwarded = {}\<rparr>)"
    using again by (simp add: handleBroadcastBlock_known)
  with p1 k1 show ?thesis by simp
qed

section \<open>Proof of stake\<close>

text \<open>
  Claim C8. The proof-of-stake \<^verbatim>\<open>ValidateBlock\<close> accepts every block, whatever the block,
  the difficulty and the stakers.
\<close>
theorem ProofOfStake_accepts_all: "ProofOfStake_ValidateBlock pos block = True"
  by (simp add: ProofOfStake_ValidateBlock_def)

section \<open>Chains with a forged first block\<close>

lemma adjacent_valid_Cons:
  "adjacent_valid (a # b # r) \<longleftrightarrow> IsBlockValid b a \<and> adjacent_valid (b # r)"
proof
  assume h: "adjacent_valid (a # b # r)"
  have "IsBlockValid b a" using h [unfolded adjacent_valid_def, rule_format, of 1] by simp
  moreover have "adjacent_valid (b # r)"
    unfolding adjacent_valid_def
  proof (intro allI impI)
    fix i assume "0 < i \<and> i < length (b # r)"
    then show "IsBlockValid ((b # r) ! i) ((b # r) ! (i - 1))"
      using h [unfolded adjacent_valid_def, rule_format, of "Suc i"] by simp
  qed
  ultimately show "IsBlockValid b a \<and> adjacent_valid (b # r)" by simp
next
  assume h: "IsBlockValid b a \<and> adjacent_valid (b # r)"
  show "adjacent_valid (a # b # r)"
    unfolding adjacent_valid_def
  proof (intro allI impI)
    fix i assume i: "0 < i \<and> i < length (a # b # r)"
    show "IsBlockValid ((a # b # r) ! i) ((a # b # r) ! (i - 1))"
    proof (cases i)
      case 0
      then show ?thesis using i by simp
    next
      case (Suc j)
      show ?thesis
      proof (cases j)
        case 0
        then show ?thesis using Suc h by simp
      next
        case (Suc k)
        have "0 < Suc k \<and> Suc k < length (b # r)" using i \<open>i = Suc j\<close> Suc by simp
        from h [THEN conjunct2, unfolded adjacent_valid_def, rule_format, OF this]
        show ?thesis using \<open>i = Suc j\<close> Suc by simp
      qed
    qed
  qed
qed

lemma adjacent_valid_single [simp]: "adjacent_valid [b]"
  by (simp add: adjacent_valid_def)

lemma forge_next_valid: "IsBlockValid (forge_next b) b"
  by (simp add: forge_next_def IsBlockValid_iff candidate_def)

lemma forge_shape: "\<exists>r. forge b n = b # r"
  by (cases n) simp_all

lemma forge_valid: "adjacent_valid (forge b n)"
proof (induction n arbitrary: b)
  case 0
  then show ?case by simp
next
  case (Suc n)
  obtain r where r: "forge (forge_next b) n = forge_next b # r" using forge_shape by blast
  with Suc [of "forge_next b"] show ?case
    by (simp add: adjacent_valid_Cons forge_next_valid)
qed

lemma forge_length [simp]: "length (forge b n) = Suc n"
  by (induction n arbitrary: b) simp_all

lemma forge_hd [simp]: "hd (forge b n) = b"
  by (cases n) simp_all

subsection \<open>The digest has 64 characters\<close>

lemma length_round256 [simp]: "length (round256 s kw) = length s"
  by (cases "(s, kw)" rule: round256.cases) (simp_all add: Let_def)

lemma length_foldl_round256 [simp]: "length (foldl round256 s kws) = length s"
  by (induction kws arbitrary: s) simp_all

lemma length_block256 [simp]: "length (block256 h ws) = length h"
  by (simp add: block256_def)

lemma length_blocks256 [simp]: "length (blocks256 h ws) = length h"
proof (induction h ws rule: blocks256.induct)
  case (1 h ws)
  then show ?case by (subst blocks256.simps) simp
qed

lemma length_concat_be32_bytes: "length (concat (map be32_bytes ws)) = 4 * length ws"
  by (induction ws) (simp_all add: be32_bytes_def)

lemma length_sha256: "length (sha256 m) = 32"
  by (simp add: sha256_def length_concat_be32_bytes init256_def)

lemma length_EncodeToString: "length (EncodeToString bs) = 2 * length bs"
  by (induction bs) (simp_all add: EncodeToString_def)

lemma length_CalculateHash: "length (CalculateHash b) = 64"
  by (simp add: CalculateHash_def Let_def length_EncodeToString length_sha256)

text \<open>
  A digest has 64 characters, so no digest has more than 64 leading zeros: at a difficulty
  above 64 the search of \<^verbatim>\<open>GenerateBlock\<close> never returns.
\<close>

lemma leading_zeros_le_length: "leading_zeros s \<le> length s"
  by (simp add: leading_zeros_def length_takeWhile_le)

lemma GenerateBlock_never_returns:
  assumes "64 < sint d"
  shows "GenerateBlock now oldBlock data d = None"
proof (cases "mine (candidate now oldBlock data d 0) 0")
  case None
  then show ?thesis by (simp add: GenerateBlock_mine)
next
  case (Some r)
  from mine_result [OF Some] assms obtain n where
    "IsHashValid (CalculateHash ((candidate now oldBlock data d 0)\<lparr>Nonce := Sprintf_x (0 + of_nat n)\<rparr>))
       (Difficulty (candidate now oldBlock data d 0)) = Inr True"
    by (auto simp: candidate_def)
  then have "nat (sint d) \<le> leading_zeros
      (CalculateHash ((candidate now oldBlock data d 0)\<lparr>Nonce := Sprintf_x (0 + of_nat n)\<rparr>))"
    by (simp add: IsHashValid_iff candidate_def)
  also have "\<dots> \<le> 64"
    using leading_zeros_le_length
      [of "CalculateHash ((candidate now oldBlock data d 0)\<lparr>Nonce := Sprintf_x (0 + of_nat n)\<rparr>)"]
    by (simp add: length_CalculateHash)
  finally show ?thesis using assms by simp
qed

text \<open>
  Claim C9. \<^verbatim>\<open>ReplaceChain\<close> never looks at the first block of the candidate on its own:
  for every local chain there is a longer candidate with every adjacent pair valid, whose
  first block has any chosen index, data and stored hash (a hash that is not 64 characters
  long is never the digest), and \<^verbatim>\<open>ReplaceChain\<close> installs it.
\<close>
theorem ReplaceChain_ignores_first_block:
  "\<exists>cand. Index (hd cand) = idx \<and> Data (hd cand) = data \<and> Hash (hd cand) = h
      \<and> (length h \<noteq> 64 \<longrightarrow> Hash (hd cand) \<noteq> CalculateHash (hd cand))
      \<and> length (Blocks bc) < length cand \<and> adjacent_valid cand
      \<and> ReplaceChain bc cand = (bc\<lparr>Blocks := cand\<rparr>, True)"
proof -
  let ?b0 = "\<lparr>Index = idx, Timestamp = [], Data = data, Hash = h, PrevHash = [],
              Difficulty = 0, Nonce = []\<rparr>"
  let ?cand = "forge ?b0 (length (Blocks bc))"
  have "length h \<noteq> 64 \<longrightarrow> Hash (hd ?cand) \<noteq> CalculateHash (hd ?cand)"
    using length_CalculateHash [of ?b0] by auto
  moreover have "ReplaceChain bc ?cand = (bc\<lparr>Blocks := ?cand\<rparr>, True)"
    by (simp add: ReplaceChain_eq forge_valid)
  ultimately show ?thesis
    by (intro exI [of _ ?cand]) (simp add: forge_valid)
qed

section \<open>Evaluating the digest\<close>

text \<open>Rewrite rules that compute \<open>sha256\<close> and the renderings on literals.\<close>

lemma replicate_numeral: "replicate (numeral k) x = x # replicate (pred_numeral k) x"
  by (simp add: numeral_eq_Suc)

lemma blocks256_done: "length ws < 16 \<Longrightarrow> blocks256 h ws = h"
  by (subst blocks256.simps) simp

lemma blocks256_step:
  "16 \<le> length ws \<Longrightarrow> blocks256 h ws = blocks256 (block256 h (take 16 ws)) (drop 16 ws)"
  by (subst blocks256.simps) simp

lemma decimal_digit: "n < 10 \<Longrightarrow> decimal n = [digitchar n]"
  by (simp add: decimal.simps)

lemma decimal_more: "10 \<le> n \<Longrightarrow> decimal n = decimal (n div 10) @ [digitchar (n mod 10)]"
  by (subst decimal.simps) simp

lemma lowerhex_digit: "n < 16 \<Longrightarrow> lowerhex n = [digitchar n]"
  by (simp add: lowerhex.simps)

lemma lowerhex_more: "16 \<le> n \<Longrightarrow> lowerhex n = lowerhex (n div 16) @ [digitchar (n mod 16)]"
  by (subst lowerhex.simps) simp

lemma CalculateHash_unfold:
  "CalculateHash block =
     EncodeToString (sha256 (bytes_of
       (Itoa (Index block) @ Timestamp block @ Data block @ PrevHash block @ Nonce block)))"
  by (simp add: CalculateHash_def)

lemma CreateGenesisBlock_unfold:
  "CreateGenesisBlock now =
     \<lparr>Index = 0, Timestamp = now, Data = ''Genesis Block'',
      Hash = CalculateHash \<lparr>Index = 0, Timestamp = now, Data = ''Genesis Block'', Hash = [],
                             PrevHash = [], Difficulty = 1, Nonce = []\<rparr>,
      PrevHash = [], Difficulty = 1, Nonce = []\<rparr>"
  by (simp add: CreateGenesisBlock_def)

lemmas render_eval =
  Itoa_def Sprintf_x_def decimal_digit decimal_more lowerhex_digit lowerhex_more digitchar_def

lemmas sha256_eval =
  sha256_def pad_def be64_def bytes_of_def EncodeToString_def digitchar_def be32_bytes_def
  block256_def init256_def K256_def rotr_def Ch_def Maj_def bsig0_def bsig1_def ssig0_def ssig1_def
  add32_def shr_def not32_def schedule_def blocks256_done blocks256_step replicate_numeral

lemma test_vector_abc:
  "EncodeToString (sha256 (bytes_of ''abc''))
   = ''ba7816bf8f01cfea414140de5dae2223b00361a396177a9cb410ff61f20015ad''"
  by (simp add: sha256_eval)

lemma genesis_digest:
  "Hash (CreateGenesisBlock start_time)
   = ''5e04148ca31ea3ba3fb16d06e32c64cc329ed7b8d49486df5df734d72571c275''"
  by (simp add: CreateGenesisBlock_unfold CalculateHash_unfold render_eval sha256_eval)

lemma example_digest_0:
  "CalculateHash (candidate seal_time example_first ''tx18'' 1 0)
   = ''45adaef2adcb1551fd85fba50fd60d308ab98a519186ab6809028d136722829a''"
  by (simp add: candidate_def example_first_def CalculateHash_unfold render_eval sha256_eval)

lemma example_digest_1:
  "CalculateHash (candidate seal_time example_first ''tx18'' 1 1)
   = ''0cd623bce416afd6135f4a02c00f22a080c71088c14e2d4275f02b066e26906c''"
  by (simp add: candidate_def example_first_def CalculateHash_unfold render_eval sha256_eval)

section \<open>The concrete blocks, evaluated\<close>

lemma example_second_sealed:
  "sealed (candidate seal_time example_first ''tx18'' 1 1) = example_second"
  unfolding sealed_def example_digest_1
  by (simp add: candidate_def example_first_def example_second_def render_eval)

lemma example_second_digest: "CalculateHash example_second = Hash example_second"
proof -
  have "CalculateHash example_second
        = CalculateHash (candidate seal_time example_first ''tx18'' 1 1)"
    unfolding example_second_sealed [symmetric] by simp
  then show ?thesis by (simp add: example_digest_1 example_second_def)
qed

lemma example_second_valid: "IsBlockValid example_second example_first"
  by (simp add: IsBlockValid_iff example_second_digest) (simp add: example_second_def example_first_def)

lemma example_first_digest: "CalculateHash example_first \<noteq> Hash example_first"
  using length_CalculateHash [of example_first] by (auto simp: example_first_def)

lemma example_mined:
  "GenerateBlock seal_time example_first ''tx18'' 1
   = Some (Inr (example_second, None))"
proof -
  let ?c = "candidate seal_time example_first ''tx18'' 1"
  have c: "\<And>i. (?c 0)\<lparr>Nonce := Sprintf_x i\<rparr> = ?c i" by (simp add: candidate_def)
  have d: "Difficulty (?c 0) = 1" by (simp add: candidate_def)
  have fail: "IsHashValid (CalculateHash (?c 0)) 1 = Inr False"
    unfolding example_digest_0 by (simp add: IsHashValid_def Repeat_def HasPrefix_def)
  have ok: "IsHashValid (CalculateHash (?c 1)) 1 = Inr True"
    unfolding example_digest_1 by (simp add: IsHashValid_def Repeat_def HasPrefix_def)
  have "mine (?c 0) 0 = mine (?c 0) (0 + 1)"
    by (rule mine_next) (simp only: c d fail)
  also have "\<dots> = Some (Inr (sealed ((?c 0)\<lparr>Nonce := Sprintf_x (0 + 1)\<rparr>)))"
    by (rule mine_found) (simp only: c d ok add_0)
  finally show ?thesis
    by (simp only: GenerateBlock_mine c add_0 example_second_sealed) simp
qed

lemma example_chain_valid: "adjacent_valid [example_first, example_second]"
  by (simp add: adjacent_valid_Cons example_second_valid)

section \<open>The claims on the concrete blocks\<close>

text \<open>
  The two example blocks replace a genesis-only chain; the same blocks in the wrong order
  replace neither that chain nor a chain of equal length.
\<close>
theorem ReplaceChain_longest_valid_witness:
  "ReplaceChain (NewBlockchain start_time) [example_first, example_second]
     = (\<lparr>Blocks = [example_first, example_second]\<rparr>, True)
   \<and> ReplaceChain \<lparr>Blocks = [example_first, example_second]\<rparr> [example_second, example_first]
     = (\<lparr>Blocks = [example_first, example_second]\<rparr>, False)
   \<and> ReplaceChain (NewBlockchain start_time) [example_second, example_first]
     = (NewBlockchain start_time, False)"
proof -
  have "\<not> IsBlockValid example_first example_second"
    by (simp add: IsBlockValid_iff example_first_def example_second_def)
  then have "\<not> adjacent_valid [example_second, example_first]"
    by (simp add: adjacent_valid_Cons)
  then show ?thesis
    using ReplaceChain_longest_valid [of "NewBlockchain start_time"
        "[example_first, example_second]"]
      ReplaceChain_longest_valid [of "\<lparr>Blocks = [example_first, example_second]\<rparr>"
        "[example_second, example_first]"]
      ReplaceChain_longest_valid [of "NewBlockchain start_time"
        "[example_second, example_first]"]
      example_chain_valid
    by (simp add: NewBlockchain_def)
qed

text \<open>
  Sealing atop the first example block at difficulty 1: nonce \<open>0\<close> is rejected and nonce
  \<open>1\<close> gives the second example block.
\<close>
theorem GenerateBlock_seals_witness:
  "GenerateBlock seal_time example_first ''tx18'' 1
     = Some (Inr (example_second, None))
   \<and> Index example_second = 8 \<and> PrevHash example_second = ''cafe''
   \<and> Nonce example_second = ''1''
   \<and> IsHashValid (CalculateHash
        (candidate seal_time example_first ''tx18'' 1 0)) 1 = Inr False
   \<and> Hash example_second = CalculateHash example_second
   \<and> IsHashValid (Hash example_second) 1 = Inr True
   \<and> leading_zeros (Hash example_second) = 1"
proof -
  note t = GenerateBlock_seals [of seal_time example_first "''tx18''" 1
      example_second None 1]
  note r = t [THEN conjunct1, rule_format, OF example_mined]
  have "IsHashValid (CalculateHash
        (candidate seal_time example_first ''tx18'' 1 0)) 1 = Inr False"
    unfolding example_digest_0 by (simp add: IsHashValid_def Repeat_def HasPrefix_def)
  moreover have "Index example_second = 8" "PrevHash example_second = ''cafe''"
    "Nonce example_second = ''1''" "leading_zeros (Hash example_second) = 1"
    by (simp_all add: example_second_def leading_zeros_def)
  ultimately show ?thesis using r example_mined by blast
qed

lemma example_peer_chain_valid: "adjacent_valid example_peer_chain"
  using example_second_valid
  by (simp add: example_peer_chain_def adjacent_valid_Cons IsBlockValid_iff)

lemma example_peer_chain_installed:
  "ReplaceChain (NewBlockchain start_time) example_peer_chain
   = (\<lparr>Blocks = example_peer_chain\<rparr>, True)"
  using example_peer_chain_valid
  by (simp add: ReplaceChain_eq NewBlockchain_def) (simp add: example_peer_chain_def)

lemma example_peer_chain_reachable: "reachable \<lparr>Blocks = example_peer_chain\<rparr>"
  by (rule reachable.replace [OF reachable.start example_peer_chain_installed])

lemma genesis_difficulty: "Difficulty (CreateGenesisBlock now) = 1"
  by (simp add: CreateGenesisBlock_unfold)

lemma leading_zeros_Cons:
  "leading_zeros (c # s) = (if c = CHR ''0'' then Suc (leading_zeros s) else 0)"
  by (simp add: leading_zeros_def)

lemma AddBlock_zero:
  assumes "Blocks bc \<noteq> []"
  shows "AddBlock now bc data 0
     = Some (Inr (bc\<lparr>Blocks := Blocks bc @ [sealed (candidate now (last (Blocks bc)) data 0 0)]\<rparr>,
                  sealed (candidate now (last (Blocks bc)) data 0 0), None))"
proof -
  have "IsBlockValid (sealed (candidate now (last (Blocks bc)) data 0 0)) (last (Blocks bc))"
    by (rule GenerateBlock_valid [OF GenerateBlock_zero])
  then show ?thesis
    using assms by (simp add: AddBlock_def GetLatestBlock_def GenerateBlock_zero)
qed

lemma example_mined_chain_mined: "mined example_mined_chain"
proof -
  have "AddBlock other_time (NewBlockchain start_time)
          ''tx 1'' 0
        = Some (Inr (example_mined_chain,
            sealed (candidate other_time
              (CreateGenesisBlock start_time) ''tx 1'' 0 0), None))"
    by (subst AddBlock_zero) (simp_all add: NewBlockchain_def example_mined_chain_def)
  then show ?thesis by (rule mined.add [OF mined.start])
qed

text \<open>
  Claim C2 as stated fails. A node that starts and then takes the example chain from a peer
  stores a chain whose first block has index 7 and a stored hash that is not its digest, and
  whose second block has fewer leading zeros than its difficulty. The chain of a node that
  has only started fails it too: the genesis block declares difficulty 1 and is never mined.
\<close>
theorem stored_chain_invariant_counterexample:
  "reachable \<lparr>Blocks = example_peer_chain\<rparr>
   \<and> \<not> stored_chain_invariant \<lparr>Blocks = example_peer_chain\<rparr>
   \<and> Index (example_peer_chain ! 0) \<noteq> 0
   \<and> Hash (example_peer_chain ! 0) \<noteq> CalculateHash (example_peer_chain ! 0)
   \<and> \<not> sint (Difficulty (example_peer_chain ! 1)) \<le> int (leading_zeros (Hash (example_peer_chain ! 1)))
   \<and> mined (NewBlockchain start_time)
   \<and> \<not> stored_chain_invariant (NewBlockchain start_time)"
proof -
  have i0: "Index (example_peer_chain ! 0) \<noteq> 0"
    by (simp add: example_peer_chain_def example_first_def)
  have h0: "Hash (example_peer_chain ! 0) \<noteq> CalculateHash (example_peer_chain ! 0)"
    using example_first_digest by (simp add: example_peer_chain_def)
  have d1: "\<not> sint (Difficulty (example_peer_chain ! 1))
              \<le> int (leading_zeros (Hash (example_peer_chain ! 1)))"
    by (simp add: example_peer_chain_def example_second_def leading_zeros_Cons)
  have "\<not> stored_chain_invariant \<lparr>Blocks = example_peer_chain\<rparr>"
  proof
    assume "stored_chain_invariant \<lparr>Blocks = example_peer_chain\<rparr>"
    then have "\<forall>i<length example_peer_chain. Index (example_peer_chain ! i) = word_of_nat i"
      by (simp add: stored_chain_invariant_def)
    then have "Index (example_peer_chain ! 0) = word_of_nat 0"
      by (rule allE [of _ 0]) (simp add: example_peer_chain_def)
    with i0 show False by simp
  qed
  moreover have "\<not> stored_chain_invariant (NewBlockchain start_time)"
    by (simp add: stored_chain_invariant_def NewBlockchain_def genesis_digest genesis_difficulty
        leading_zeros_Cons)
  ultimately show ?thesis
    using example_peer_chain_reachable i0 h0 d1 mined.start by blast
qed

text \<open>The amended invariant on the chain taken from the peer and on a mined chain.\<close>
theorem reachable_chain_linked_witness:
  "reachable \<lparr>Blocks = example_peer_chain\<rparr> \<and> linked_invariant \<lparr>Blocks = example_peer_chain\<rparr>
   \<and> mined example_mined_chain \<and> mined_invariant example_mined_chain"
  using reachable_chain_linked [of "\<lparr>Blocks = example_peer_chain\<rparr>"]
    reachable_chain_linked [of example_mined_chain]
    example_peer_chain_reachable example_mined_chain_mined
  by blast

lemma example_added:
  "AddBlock seal_time \<lparr>Blocks = [example_first]\<rparr> ''tx18'' 1
   = Some (Inr (\<lparr>Blocks = [example_first, example_second]\<rparr>, example_second, None))"
  by (simp add: AddBlock_def GetLatestBlock_def example_mined example_second_valid)

text \<open>Appending the second example block; a shorter candidate changes nothing.\<close>
theorem chain_length_monotonic_witness:
  "AddBlock seal_time \<lparr>Blocks = [example_first]\<rparr> ''tx18'' 1
     = Some (Inr (\<lparr>Blocks = [example_first, example_second]\<rparr>, example_second, None))
   \<and> length (Blocks \<lparr>Blocks = [example_first]\<rparr>)
       \<le> length (Blocks \<lparr>Blocks = [example_first, example_second]\<rparr>)
   \<and> length (Blocks \<lparr>Blocks = [example_first, example_second]\<rparr>)
       \<le> length (Blocks (fst (ReplaceChain \<lparr>Blocks = [example_first, example_second]\<rparr>
            [example_first])))"
  using chain_length_monotonic [of seal_time "\<lparr>Blocks = [example_first]\<rparr>"
      "''tx18''" 1 "\<lparr>Blocks = [example_first, example_second]\<rparr>" example_second None
      "[example_first, example_second]"]
    chain_length_monotonic [of seal_time
      "\<lparr>Blocks = [example_first, example_second]\<rparr>" "''tx18''" 1 
      "\<lparr>Blocks = [example_first, example_second]\<rparr>" example_second None "[example_first]"]
    example_added
  by simp

text \<open>\<^verbatim>\<open>AddBlock\<close> atop the first example block seals, appends and returns the second.\<close>
theorem AddBlock_returns_sealed_witness:
  "GetLatestBlock \<lparr>Blocks = [example_first]\<rparr> = Inr example_first
   \<and> GenerateBlock seal_time example_first ''tx18'' 1
       = Some (Inr (example_second, None))
   \<and> IsBlockValid example_second example_first
   \<and> AddBlock seal_time \<lparr>Blocks = [example_first]\<rparr> ''tx18'' 1
       = Some (Inr (\<lparr>Blocks = [example_first, example_second]\<rparr>, example_second, None))"
proof -
  have tip: "GetLatestBlock \<lparr>Blocks = [example_first]\<rparr> = Inr example_first"
    by (simp add: GetLatestBlock_def)
  from AddBlock_returns_sealed [of seal_time "\<lparr>Blocks = [example_first]\<rparr>"
      "''tx18''" 1 _ example_second _ example_first None, THEN conjunct2] tip example_mined
  have "AddBlock seal_time \<lparr>Blocks = [example_first]\<rparr> ''tx18'' 1
       = Some (Inr (\<lparr>Blocks = [example_first, example_second]\<rparr>, example_second, None))"
    by (simp add: example_second_valid)
  with tip example_mined example_second_valid show ?thesis by simp
qed

lemma example_delivery:
  "handleBroadcastBlock example_node (example_request example_second)
   = (example_node_after, \<lparr>code = StatusOK, forwarded = {''10.0.0.3:8080''}\<rparr>)"
proof -
  have "ReplaceChain \<lparr>Blocks = [example_first]\<rparr> [example_first, example_second]
        = (\<lparr>Blocks = [example_first, example_second]\<rparr>, True)"
    by (simp add: ReplaceChain_eq example_chain_valid)
  then show ?thesis
    by (auto simp: handleBroadcastBlock_def example_node_def example_request_def known_def
        GetLatestBlock_def GetBlocks_def example_second_valid example_node_after_def)
qed

text \<open>
  The second example block reaches the example node twice: it is appended and forwarded
  to the one other peer, then ignored.
\<close>
theorem gossip_idempotent_witness:
  "handleBroadcastBlock example_node (example_request example_second)
     = (example_node_after, \<lparr>code = StatusOK, forwarded = {''10.0.0.3:8080''}\<rparr>)
   \<and> handleBroadcastBlock example_node_after (example_request example_second)
     = (example_node_after, \<lparr>code = StatusOK, forwarded = {}\<rparr>)
   \<and> handleBroadcastBlock example_node_after
        \<lparr>body = Some example_second, X_Forwarded_For = ''10.0.0.3'', RemoteAddr = ''10.0.0.9:4000''\<rparr>
     = (example_node_after, \<lparr>code = StatusOK, forwarded = {}\<rparr>)
   \<and> Blocks (chain example_node_after) = [example_first, example_second]
   \<and> known (knownBlocks example_node_after) (Hash example_second)"
proof -
  have b: "body (example_request example_second) = Some example_second"
    by (simp add: example_request_def)
  from gossip_idempotent [of example_node "example_request example_second" example_second
      "example_request example_second"]
  have again: "handleBroadcastBlock example_node_after (example_request example_second)
     = (example_node_after, \<lparr>code = StatusOK, forwarded = {}\<rparr>)"
    by (simp add: b example_delivery)
  from gossip_idempotent [of example_node "example_request example_second" example_second
      "\<lparr>body = Some example_second, X_Forwarded_For = ''10.0.0.3'', RemoteAddr = ''10.0.0.9:4000''\<rparr>"]
  have other: "handleBroadcastBlock example_node_after
        \<lparr>body = Some example_second, X_Forwarded_For = ''10.0.0.3'', RemoteAddr = ''10.0.0.9:4000''\<rparr>
     = (example_node_after, \<lparr>code = StatusOK, forwarded = {}\<rparr>)"
    by (simp add: b example_delivery)
  from again other show ?thesis
    by (simp add: example_delivery) (simp add: example_node_after_def)
qed

lemma example_third_valid: "IsBlockValid example_third example_second"
  unfolding example_third_def by (rule GenerateBlock_valid [OF GenerateBlock_zero])

lemma example_third_early: "\<not> IsBlockValid example_third example_first"
  by (simp add: IsBlockValid_iff example_third_def candidate_def example_second_def example_first_def)

lemma example_early_delivery:
  "handleBroadcastBlock example_node (example_request example_third)
   = (example_node_marked, \<lparr>code = StatusOK, forwarded = {}\<rparr>)"
  by (simp add: handleBroadcastBlock_def example_node_def example_request_def known_def
      GetLatestBlock_def example_third_early example_node_marked_def)

lemma example_sync: "node_step example_node_marked example_node_synced"
proof -
  have "ReplaceChain (chain example_node_marked) [example_first, example_second]
        = (\<lparr>Blocks = [example_first, example_second]\<rparr>, True)"
    by (simp add: ReplaceChain_eq example_chain_valid example_node_marked_def
        example_node_def)
  from node_step.sync [OF this] show ?thesis by (simp add: example_node_synced_def)
qed

text \<open>
  The third example block reaches the example node before its predecessor and is rejected.
  The node then fetches the predecessor; the third block would now be valid against the tip,
  and its delivery is ignored.
\<close>
theorem rejected_block_never_accepted_witness:
  "handleBroadcastBlock example_node (example_request example_third)
     = (example_node_marked, \<lparr>code = StatusOK, forwarded = {}\<rparr>)
   \<and> chain example_node_marked = chain example_node
   \<and> known (knownBlocks example_node_marked) (Hash example_third)
   \<and> node_step\<^sup>*\<^sup>* example_node_marked example_node_synced
   \<and> GetLatestBlock (chain example_node_synced) = Inr example_second
   \<and> IsBlockValid example_third example_second
   \<and> handleBroadcastBlock example_node_synced (example_request example_third)
     = (example_node_synced, \<lparr>code = StatusOK, forwarded = {}\<rparr>)
   \<and> Blocks (chain example_node_synced) = [example_first, example_second]"
proof -
  have new: "\<not> known (knownBlocks example_node) (Hash example_third)"
    by (simp add: example_node_def known_def)
  have tip: "GetLatestBlock (chain example_node) = Inr example_first"
    by (simp add: example_node_def GetLatestBlock_def)
  have b: "body (example_request example_third) = Some example_third"
    by (simp add: example_request_def)
  have steps: "node_step\<^sup>*\<^sup>* example_node_marked example_node_synced"
    using example_sync by (rule r_into_rtranclp)
  note t = rejected_block_never_accepted [OF example_early_delivery b new tip example_third_early
      steps b]
  have "GetLatestBlock (chain example_node_synced) = Inr example_second"
    and "Blocks (chain example_node_synced) = [example_first, example_second]"
    by (simp_all add: example_node_synced_def GetLatestBlock_def)
  with t example_early_delivery steps example_third_valid show ?thesis by simp
qed

text \<open>A candidate with a forged first block replaces a genesis-only chain.\<close>
theorem ReplaceChain_ignores_first_block_witness:
  "\<exists>cand. Index (hd cand) = 7 \<and> Data (hd cand) = ''forged'' \<and> Hash (hd cand) = ''cafe''
      \<and> Hash (hd cand) \<noteq> CalculateHash (hd cand)
      \<and> length (Blocks (NewBlockchain start_time)) < length cand
      \<and> adjacent_valid cand
      \<and> ReplaceChain (NewBlockchain start_time) cand
          = (\<lparr>Blocks = cand\<rparr>, True)"
  using ReplaceChain_ignores_first_block [of 7 "''forged''" "''cafe''"
      "NewBlockchain start_time"]
  by (simp add: NewBlockchain_def)

end
